theory Spec2Isabelle
  imports Main "HOL-Library.Word" "HOL-Library.Sublist"
begin

unbundle bit_operations_syntax

text \<open>
  A model of \<^verbatim>\<open>app/src/main/cpp/llama/llama_jni.cpp\<close>: the UTF-8 scanner
  \<^verbatim>\<open>getValidUtf8Length\<close>, the reassembler \<^verbatim>\<open>makeValidUtf8\<close>, the session globals
  with \<^verbatim>\<open>nativeLoadModel\<close>, \<^verbatim>\<open>nativeIsModelLoaded\<close> and
  \<^verbatim>\<open>nativeStopGeneration\<close>, and the generation loop of \<^verbatim>\<open>nativeGenerate\<close> with its
  stop-marker detection, its streaming callback and its final cleanup. The inference
  engine (llama.cpp) and the JNI environment are parameters of the model: every call
  into them is a value the caller of the model supplies.
\<close>

section \<open>Bytes and strings\<close>

text \<open>
  A \<^verbatim>\<open>std::string\<close> is a list of bytes. Indices and lengths are \<^verbatim>\<open>size_t\<close>
  values bounded by the size of a string in memory, so they are natural numbers here.
\<close>

type_synonym byte = "8 word"
type_synonym bytes = "byte list"

definition ascii :: "string \<Rightarrow> bytes" where
  "ascii s = map (\<lambda>c. of_nat (of_char c)) s"

section \<open>getValidUtf8Length\<close>

text \<open>
  The classification of the byte at the scan position: the length of the sequence it
  leads, or 0 (the initial value of \<^verbatim>\<open>char_len\<close>) for a continuation byte
  without start and for an invalid start byte, which the two last branches of the
  source both skip.
\<close>

definition char_len :: "byte \<Rightarrow> nat" where
  "char_len c =
     (if c < 0x80 then 1
      else if c AND 0xE0 = 0xC0 then 2
      else if c AND 0xF0 = 0xE0 then 3
      else if c AND 0xF8 = 0xF0 then 4
      else 0)"

definition is_continuation :: "byte \<Rightarrow> bool" where
  "is_continuation b \<longleftrightarrow> b AND 0xC0 = 0x80"

text \<open>The inner loop: \<^verbatim>\<open>for (j = 1; j < char_len; j++)\<close> over \<^verbatim>\<open>data[i + j]\<close>.\<close>

definition continuations_valid :: "bytes \<Rightarrow> nat \<Rightarrow> nat \<Rightarrow> bool" where
  "continuations_valid data i cl = list_all (\<lambda>j. is_continuation (data ! (i + j))) [1..<cl]"

text \<open>The outer loop, with its two variables \<^verbatim>\<open>i\<close> and \<^verbatim>\<open>valid_len\<close>.\<close>

function scan_utf8 :: "bytes \<Rightarrow> nat \<Rightarrow> nat \<Rightarrow> nat" where
  "scan_utf8 data i valid_len =
     (if i < length data then
        (let cl = char_len (data ! i) in
         if cl = 0 then scan_utf8 data (i + 1) valid_len
         else if i + cl > length data then valid_len
         else if continuations_valid data i cl then scan_utf8 data (i + cl) (i + cl)
         else scan_utf8 data (i + 1) valid_len)
      else valid_len)"
  by pat_completeness auto
termination
  by (relation "measure (\<lambda>(data, i, valid_len). length data - i)") auto

declare scan_utf8.simps [simp del]

definition getValidUtf8Length :: "bytes \<Rightarrow> nat" where
  "getValidUtf8Length data = scan_utf8 data 0 0"

section \<open>makeValidUtf8\<close>

text \<open>
  The function returns its string and leaves the new content of the reference
  parameter \<^verbatim>\<open>incomplete_buffer\<close>: the model returns both.
\<close>

definition makeValidUtf8 :: "bytes \<Rightarrow> bytes \<Rightarrow> bytes \<times> bytes" where
  "makeValidUtf8 input incomplete_buffer =
     (let combined = incomplete_buffer @ input in
      if combined = [] then ([], [])
      else
        (let valid_len = getValidUtf8Length combined in
         (take valid_len combined,
          if valid_len < length combined then drop valid_len combined else [])))"

section \<open>The reassembler on its own\<close>

text \<open>
  \<^verbatim>\<open>push\<close> is one call of \<^verbatim>\<open>makeValidUtf8\<close> on the new bytes with the
  buffer kept from the call before; \<open>push_all\<close> threads the buffer through a sequence
  of calls and collects what each returns. The final \<^verbatim>\<open>flush\<close> is the same
  function called with no new bytes.
\<close>

fun push_all :: "bytes list \<Rightarrow> bytes \<Rightarrow> bytes list \<times> bytes" where
  "push_all [] buf = ([], buf)"
| "push_all (x # xs) buf =
     (let (emitted, buf1) = makeValidUtf8 x buf;
          (rest, buf2) = push_all xs buf1
      in (emitted # rest, buf2))"

definition flush :: "bytes \<Rightarrow> bytes" where
  "flush buf = fst (makeValidUtf8 [] buf)"

definition reassemble :: "bytes list \<Rightarrow> bytes" where
  "reassemble chunks = (let (emitted, buf) = push_all chunks [] in concat emitted @ flush buf)"

section \<open>Well-formed UTF-8\<close>

text \<open>
  The valid-UTF-8-decodable prefix of a byte sequence: the longest prefix that is a
  sequence of complete code points, each a lead byte followed by the continuation bytes
  it announces. It stops at the first byte that does not start such a code point.
  Lead and continuation bytes are classified as the scanner classifies them, which is
  the widest reading of well-formed: RFC 3629 excludes more (overlong forms,
  surrogates, code points above U+10FFFF), so every string that is valid UTF-8 is
  well-formed here.
\<close>

function utf8_prefix_len :: "bytes \<Rightarrow> nat" where
  "utf8_prefix_len [] = 0"
| "utf8_prefix_len (c # cs) =
     (let cl = char_len c in
      if cl \<noteq> 0 \<and> cl - 1 \<le> length cs \<and> list_all is_continuation (take (cl - 1) cs)
      then cl + utf8_prefix_len (drop (cl - 1) cs)
      else 0)"
  by pat_completeness auto
termination
  by (relation "measure length") auto

definition valid_utf8_prefix :: "bytes \<Rightarrow> bytes" where
  "valid_utf8_prefix data = take (utf8_prefix_len data) data"

definition wf_utf8 :: "bytes \<Rightarrow> bool" where
  "wf_utf8 data \<longleftrightarrow> utf8_prefix_len data = length data"

text \<open>
  A truncated sequence: a lead byte announcing more bytes than follow it. The scanner
  stops at it (the \<^verbatim>\<open>break\<close> of the source).
\<close>

definition truncated_sequence :: "bytes \<Rightarrow> bool" where
  "truncated_sequence t \<longleftrightarrow> (case t of [] \<Rightarrow> False | c # cs \<Rightarrow> length cs < char_len c - 1)"

text \<open>
  The scan seen from the position \<^verbatim>\<open>i\<close>: the offset, from \<^verbatim>\<open>i\<close>, of the end of
  the last code point the scan accepts in the rest of the data, 0 when it accepts none.
  Used in the proofs only.
\<close>

function valid_end :: "bytes \<Rightarrow> nat" where
  "valid_end [] = 0"
| "valid_end (c # cs) =
     (let cl = char_len c in
      if cl \<noteq> 0 \<and> length cs < cl - 1 then 0
      else if cl \<noteq> 0 \<and> list_all is_continuation (take (cl - 1) cs)
      then cl + valid_end (drop (cl - 1) cs)
      else (let r = valid_end cs in if r = 0 then 0 else Suc r))"
  by pat_completeness auto
termination
  by (relation "measure length") auto

section \<open>std::string::find and rfind\<close>

text \<open>
  \<open>str_find s pat\<close> is the index of the first occurrence of \<open>pat\<close> in \<open>s\<close>,
  \<open>str_rfind s pat\<close> that of the last one; \<open>None\<close> is \<^verbatim>\<open>std::string::npos\<close>.
\<close>

fun str_find :: "bytes \<Rightarrow> bytes \<Rightarrow> nat option" where
  "str_find [] pat = (if pat = [] then Some 0 else None)"
| "str_find (x # xs) pat =
     (if prefix pat (x # xs) then Some 0 else map_option Suc (str_find xs pat))"

fun str_rfind :: "bytes \<Rightarrow> bytes \<Rightarrow> nat option" where
  "str_rfind [] pat = (if pat = [] then Some 0 else None)"
| "str_rfind (x # xs) pat =
     (case str_rfind xs pat of
        Some pos \<Rightarrow> Some (Suc pos)
      | None \<Rightarrow> if prefix pat (x # xs) then Some 0 else None)"

text \<open>\<^verbatim>\<open>c_str()\<close>: the bytes before the first NUL, which is all \<^verbatim>\<open>NewStringUTF\<close> reads.\<close>

definition c_str :: "bytes \<Rightarrow> bytes" where
  "c_str s = takeWhile (\<lambda>b. b \<noteq> 0) s"

section \<open>The session\<close>

text \<open>
  The globals \<^verbatim>\<open>g_model\<close>, \<^verbatim>\<open>g_ctx\<close>, \<^verbatim>\<open>g_is_generating\<close> and
  \<^verbatim>\<open>g_should_stop\<close>. A pointer is \<open>None\<close> when null, and a number naming the
  object it points to otherwise.
\<close>

record session =
  g_model :: "nat option"
  g_ctx :: "nat option"
  g_is_generating :: bool
  g_should_stop :: bool

definition nativeIsModelLoaded :: "session \<Rightarrow> bool" where
  "nativeIsModelLoaded s \<longleftrightarrow> g_model s \<noteq> None \<and> g_ctx s \<noteq> None"


subsection \<open>nativeLoadModel\<close>

text \<open>
  The engine is a parameter: what \<^verbatim>\<open>llama_model_load_from_file\<close> returns for the
  number of GPU layers asked, and what \<^verbatim>\<open>llama_init_from_model\<close> returns for a
  model, a context size and a thread count. The outcome lists the objects given to
  \<^verbatim>\<open>llama_free\<close> and \<^verbatim>\<open>llama_model_free\<close>, in call order. Both failures return
  \<^verbatim>\<open>JNI_FALSE\<close>; the error names the return statement taken.
\<close>

record load_env =
  model_load_from_file :: "int \<Rightarrow> nat option"
  init_from_model :: "nat \<Rightarrow> int \<Rightarrow> int \<Rightarrow> nat option"
  hardware_concurrency :: int

datatype resource = Context nat | Model nat

datatype load_error = LoadError | ContextError

record load_outcome =
  load_session :: session
  load_freed :: "resource list"
  load_result :: "load_error + unit"

definition jboolean_of :: "load_error + unit \<Rightarrow> bool" where
  "jboolean_of r = (case r of Inl e \<Rightarrow> False | Inr u \<Rightarrow> True)"

definition nativeLoadModel :: "session \<Rightarrow> int \<Rightarrow> int \<Rightarrow> bool \<Rightarrow> load_env \<Rightarrow> load_outcome" where
  "nativeLoadModel s nCtx nThreads useGpu env =
     (let freed1 = (case g_ctx s of Some c \<Rightarrow> [Context c] | None \<Rightarrow> []);
          s1 = s\<lparr>g_ctx := None\<rparr>;
          freed2 = freed1 @ (case g_model s1 of Some m \<Rightarrow> [Model m] | None \<Rightarrow> []);
          s2 = s1\<lparr>g_model := None\<rparr>;
          n_gpu_layers = (if useGpu then 99 else 0);
          s3 = s2\<lparr>g_model := model_load_from_file env n_gpu_layers\<rparr>
      in case g_model s3 of
           None \<Rightarrow> \<lparr>load_session = s3, load_freed = freed2, load_result = Inl LoadError\<rparr>
         | Some m \<Rightarrow>
             (let n_ctx = (if nCtx > 0 then nCtx else 2048);
                  n_threads = (if nThreads > 0 then nThreads
                               else max 1 (hardware_concurrency env - 1));
                  s4 = s3\<lparr>g_ctx := init_from_model env m n_ctx n_threads\<rparr>
              in case g_ctx s4 of
                   None \<Rightarrow> \<lparr>load_session = s4\<lparr>g_model := None\<rparr>,
                             load_freed = freed2 @ [Model m],
                             load_result = Inl ContextError\<rparr>
                 | Some c \<Rightarrow> \<lparr>load_session = s4, load_freed = freed2,
                               load_result = Inr ()\<rparr>))"

subsection \<open>nativeGenerate\<close>

text \<open>
  The engine and the other threads are parameters of a run. For the \<open>i\<close>-th
  iteration of the sampling loop, \<open>sampled_token\<close> gives what the engine does with the
  token \<^verbatim>\<open>llama_sampler_sample\<close> returns: whether \<^verbatim>\<open>llama_vocab_is_eog\<close> holds, the
  bytes \<^verbatim>\<open>llama_token_to_piece\<close> writes (\<open>None\<close> when it returns \<^verbatim>\<open>n < 0\<close>; at
  most 256 bytes fit its buffer, which no property below depends on), whether
  \<^verbatim>\<open>NewStringUTF\<close> returns a string for the chunk streamed in that iteration, and
  whether \<^verbatim>\<open>llama_decode\<close> of the token returns 0.

  \<open>tokenize\<close> is the count \<^verbatim>\<open>llama_tokenize\<close> returns for the prompt and
  \<open>prompt_decode_ok\<close> says whether the evaluation of the prompt returns 0.
  \<open>stop_flag_at i\<close> is the value of \<^verbatim>\<open>g_should_stop\<close> that the loop condition reads
  before iteration \<open>i\<close>: the function clears the flag when it starts, and another
  thread sets it through \<^verbatim>\<open>nativeStopGeneration\<close>. \<open>flush_jstring_ok\<close> is the
  outcome of \<^verbatim>\<open>NewStringUTF\<close> in the flush after the loop, and \<open>final_stop_flag\<close>
  the value of \<^verbatim>\<open>g_should_stop\<close> when the function returns.
\<close>

record token_event =
  is_eog :: bool
  piece :: "bytes option"
  jstring_ok :: bool
  decode_ok :: bool

record gen_env =
  tokenize :: "bytes \<Rightarrow> int"
  prompt_decode_ok :: bool
  sampled_token :: "nat \<Rightarrow> token_event"
  stop_flag_at :: "nat \<Rightarrow> bool"
  flush_jstring_ok :: bool
  final_stop_flag :: bool

text \<open>
  The request: the prompt, \<^verbatim>\<open>maxTokens\<close> (a 32-bit \<^verbatim>\<open>jint\<close>), and whether a
  callback with an \<^verbatim>\<open>onToken\<close> method was passed. Temperature and top-p only
  configure the sampler.
\<close>

record request =
  prompt :: bytes
  maxTokens :: "32 word"
  has_callback :: bool

text \<open>
  The locals of the loop, the texts given to \<^verbatim>\<open>onToken\<close> so far (\<open>sink_calls\<close>)
  and the number of calls of the sampler (\<open>sampled\<close>).
\<close>

record loop_state =
  result :: bytes
  recent_output :: bytes
  utf8_buffer :: bytes
  pending_output :: bytes
  sink_calls :: "bytes list"
  sampled :: nat

definition init_loop_state :: loop_state where
  "init_loop_state =
     \<lparr>result = [], recent_output = [], utf8_buffer = [], pending_output = [],
      sink_calls = [], sampled = 0\<rparr>"

definition im_end :: bytes where
  "im_end = ascii ''<|im_end|>''"

definition im_end_partial :: bytes where
  "im_end_partial = ascii ''<|im_end''"

definition im_start :: bytes where
  "im_start = ascii ''<|im_start|>''"

definition im_start_partial :: bytes where
  "im_start_partial = ascii ''<|im_start''"

definition im_prefix :: bytes where
  "im_prefix = ascii ''<|im_''"

text \<open>
  \<^verbatim>\<open>pos = result.rfind(marker); if (pos != npos) result = result.substr(0, pos);\<close>
  the source writes it four times.
\<close>

definition cut_at_last :: "bytes \<Rightarrow> bytes \<Rightarrow> bytes" where
  "cut_at_last marker res = (case str_rfind res marker of Some pos \<Rightarrow> take pos res | None \<Rightarrow> res)"

text \<open>The streaming of the pending output to the callback, inside the loop.\<close>

definition stream_callback :: "bool \<Rightarrow> bool \<Rightarrow> loop_state \<Rightarrow> loop_state" where
  "stream_callback has_cb js_ok st =
     (if has_cb then
        (let (valid_output, buf) = makeValidUtf8 (pending_output st) (utf8_buffer st);
             st1 = st\<lparr>utf8_buffer := buf\<rparr>
         in if valid_output \<noteq> [] then
              (let st2 = st1\<lparr>pending_output := []\<rparr>
               in if js_ok then st2\<lparr>sink_calls := sink_calls st2 @ [c_str valid_output]\<rparr>
                  else st2)
            else st1)
      else st)"

text \<open>
  One iteration of the loop body; the boolean says whether the loop goes on to its
  next test (\<open>False\<close> is a \<^verbatim>\<open>break\<close>).
\<close>

definition gen_step :: "bool \<Rightarrow> token_event \<Rightarrow> loop_state \<Rightarrow> loop_state \<times> bool" where
  "gen_step has_cb ev st0 =
     (let st1 = st0\<lparr>sampled := Suc (sampled st0)\<rparr> in
      if is_eog ev then (st1, False)
      else case piece ev of
        None \<Rightarrow> (st1, False)
      | Some p \<Rightarrow>
          (let appended = recent_output st1 @ p;
               recent = (if length appended > 50 then drop (length appended - 50) appended
                         else appended);
               st2 = st1\<lparr>recent_output := recent\<rparr>;
               found_end = (str_find recent im_end \<noteq> None);
               st3 = (if found_end
                      then st2\<lparr>result := cut_at_last im_end_partial (cut_at_last im_end (result st2))\<rparr>
                      else st2);
               found_start = (str_find recent im_start \<noteq> None);
               st4 = (if found_start
                      then st3\<lparr>result := cut_at_last im_start_partial (cut_at_last im_start (result st3))\<rparr>
                      else st3)
           in if found_end \<or> found_start then (st4, False)
              else
                (let st5 = st4\<lparr>result := result st4 @ p,
                               pending_output := pending_output st4 @ p\<rparr>;
                     st6 = stream_callback has_cb (jstring_ok ev) st5
                 in (st6, decode_ok ev))))"

text \<open>\<^verbatim>\<open>for (int i = 0; i < max_gen && !g_should_stop; i++)\<close>\<close>

function gen_loop :: "bool \<Rightarrow> gen_env \<Rightarrow> nat \<Rightarrow> nat \<Rightarrow> loop_state \<Rightarrow> loop_state" where
  "gen_loop has_cb env max_gen i st =
     (if i < max_gen \<and> \<not> stop_flag_at env i then
        (let (st', continue) = gen_step has_cb (sampled_token env i) st
         in if continue then gen_loop has_cb env max_gen (Suc i) st' else st')
      else st)"
  by pat_completeness auto
termination
  by (relation "measure (\<lambda>(has_cb, env, max_gen, i, st). max_gen - i)") auto

declare gen_loop.simps [simp del]

text \<open>The flush of the pending output after the loop.\<close>

definition flush_pending :: "bool \<Rightarrow> bool \<Rightarrow> loop_state \<Rightarrow> loop_state" where
  "flush_pending has_cb js_ok st =
     (if has_cb \<and> pending_output st \<noteq> [] then
        (let (remaining_valid, buf) = makeValidUtf8 (pending_output st) (utf8_buffer st);
             st1 = st\<lparr>utf8_buffer := buf\<rparr>
         in if remaining_valid \<noteq> [] \<and> js_ok
            then st1\<lparr>sink_calls := sink_calls st1 @ [c_str remaining_valid]\<rparr>
            else st1)
      else st)"

text \<open>
  \<^verbatim>\<open>while ((pos = result.find("<|im_")) != npos) result = result.substr(0, pos);\<close>
  The loop ends because each cut makes the string shorter.
\<close>

function final_cleanup :: "bytes \<Rightarrow> bytes" where
  "final_cleanup res =
     (case str_find res im_prefix of
        None \<Rightarrow> res
      | Some pos \<Rightarrow> final_cleanup (take pos res))"
  by pat_completeness auto
termination
proof (relation "measure length")
  show "wf (measure length)" by simp
next
  fix res :: bytes and pos :: nat
  assume found: "str_find res im_prefix = Some pos"
  have bound: "str_find s pat = Some p \<Longrightarrow> p + length pat \<le> length s"
    for s pat :: bytes and p :: nat
    by (induction s arbitrary: p) (auto split: if_splits dest: prefix_length_le)
  have "length im_prefix = 5"
    by (simp add: im_prefix_def ascii_def)
  with bound [OF found] show "(take pos res, res) \<in> measure length"
    by simp
qed

declare final_cleanup.simps [simp del]

text \<open>
  The three early returns give an error text to \<^verbatim>\<open>NewStringUTF\<close>; the model names
  the return statement taken, and \<open>jstring_of\<close> is the string the caller receives.
\<close>

datatype gen_error = NoModelError | TokenizationError | EvaluationError

fun error_text :: "gen_error \<Rightarrow> bytes" where
  "error_text NoModelError = ascii ''[Error: No model loaded]''"
| "error_text TokenizationError = ascii ''[Error: Tokenization failed]''"
| "error_text EvaluationError = ascii ''[Error: Prompt evaluation failed]''"

definition jstring_of :: "gen_error + bytes \<Rightarrow> bytes" where
  "jstring_of r = (case r of Inl e \<Rightarrow> error_text e | Inr text \<Rightarrow> text)"

record gen_outcome =
  session_after :: session
  returned :: "gen_error + bytes"
  sink_received :: "bytes list"
  tokens_sampled :: nat

definition max_gen_of :: "32 word \<Rightarrow> nat" where
  "max_gen_of n = (if 0 <s n then nat (sint n) else 512)"

definition nativeGenerate :: "session \<Rightarrow> request \<Rightarrow> gen_env \<Rightarrow> gen_outcome" where
  "nativeGenerate s req env =
     (if g_model s = None \<or> g_ctx s = None then
        \<lparr>session_after = s, returned = Inl NoModelError, sink_received = [],
         tokens_sampled = 0\<rparr>
      else
        (let s1 = s\<lparr>g_is_generating := True, g_should_stop := False\<rparr> in
         if tokenize env (prompt req) < 0 then
           \<lparr>session_after = s1\<lparr>g_is_generating := False, g_should_stop := final_stop_flag env\<rparr>,
            returned = Inl TokenizationError, sink_received = [], tokens_sampled = 0\<rparr>
         else if \<not> prompt_decode_ok env then
           \<lparr>session_after = s1\<lparr>g_is_generating := False, g_should_stop := final_stop_flag env\<rparr>,
            returned = Inl EvaluationError, sink_received = [], tokens_sampled = 0\<rparr>
         else
           (let max_gen = max_gen_of (maxTokens req);
                st = gen_loop (has_callback req) env max_gen 0 init_loop_state;
                st' = flush_pending (has_callback req) (flush_jstring_ok env) st;
                cleaned = final_cleanup (result st');
                valid_result = fst (makeValidUtf8 cleaned [])
            in \<lparr>session_after = s1\<lparr>g_is_generating := False, g_should_stop := final_stop_flag env\<rparr>,
                returned = Inr (c_str valid_result),
                sink_received = sink_calls st',
                tokens_sampled = sampled st'\<rparr>)))"

subsection \<open>Scripted runs\<close>

text \<open>
  An engine that samples the tokens with the given pieces, one after the other, then an
  end-of-sequence token, with every engine and JNI call succeeding and no stop request.
\<close>

definition piece_token :: "bytes \<Rightarrow> token_event" where
  "piece_token p = \<lparr>is_eog = False, piece = Some p, jstring_ok = True, decode_ok = True\<rparr>"

definition eog_token :: token_event where
  "eog_token = \<lparr>is_eog = True, piece = None, jstring_ok = True, decode_ok = True\<rparr>"

definition scripted_env :: "bytes list \<Rightarrow> gen_env" where
  "scripted_env ps =
     \<lparr>tokenize = (\<lambda>p. 1), prompt_decode_ok = True,
      sampled_token = (\<lambda>i. if i < length ps then piece_token (ps ! i) else eog_token),
      stop_flag_at = (\<lambda>i. False), flush_jstring_ok = True, final_stop_flag = False\<rparr>"

definition loaded_session :: session where
  "loaded_session = \<lparr>g_model = Some 1, g_ctx = Some 2, g_is_generating = False, g_should_stop = False\<rparr>"

definition empty_session :: session where
  "empty_session = \<lparr>g_model = None, g_ctx = None, g_is_generating = False, g_should_stop = False\<rparr>"

definition request_of :: "string \<Rightarrow> int \<Rightarrow> bool \<Rightarrow> request" where
  "request_of p n cb = \<lparr>prompt = ascii p, maxTokens = of_int n, has_callback = cb\<rparr>"


text \<open>An engine whose model loads and whose context creation fails.\<close>

definition failing_context_env :: load_env where
  "failing_context_env =
     \<lparr>model_load_from_file = (\<lambda>n. Some 7), init_from_model = (\<lambda>m c t. None),
      hardware_concurrency = 8\<rparr>"

subsection \<open>The example text and the state of the loop after plain pieces\<close>

definition hi_there :: bytes where
  "hi_there = ascii ''Hi there!''"

text \<open>
  The locals after the loop has taken the pieces \<open>qs\<close>, when every piece was ASCII
  text and was streamed at once. Used in the proofs only.
\<close>

definition pieces_state :: "bool \<Rightarrow> bytes list \<Rightarrow> loop_state \<Rightarrow> bool" where
  "pieces_state cb qs st \<longleftrightarrow>
     result st = concat qs \<and> recent_output st = concat qs \<and> utf8_buffer st = []
     \<and> (cb \<longrightarrow> pending_output st = [])
     \<and> sink_calls st = (if cb then filter (\<lambda>p. p \<noteq> []) qs else [])
     \<and> sampled st = length qs"

section \<open>The sampling loop\<close>

lemma stream_callback_sampled: "sampled (stream_callback cb js st) = sampled st"
  by (simp add: stream_callback_def Let_def split: prod.splits)

lemma flush_pending_sampled: "sampled (flush_pending cb js st) = sampled st"
  by (simp add: flush_pending_def Let_def split: prod.splits)

lemma flush_pending_result: "result (flush_pending cb js st) = result st"
  by (simp add: flush_pending_def Let_def split: prod.splits)

lemma gen_step_sampled: "sampled (fst (gen_step cb ev st)) = Suc (sampled st)"
  by (simp add: gen_step_def Let_def stream_callback_sampled split: option.splits)

lemma gen_loop_exit:
  "\<not> (i < max_gen \<and> \<not> stop_flag_at env i) \<Longrightarrow> gen_loop cb env max_gen i st = st"
  by (subst gen_loop.simps) auto

lemma gen_loop_step:
  "i < max_gen \<Longrightarrow> \<not> stop_flag_at env i \<Longrightarrow> gen_step cb (sampled_token env i) st = (st', c) \<Longrightarrow>
   gen_loop cb env max_gen i st = (if c then gen_loop cb env max_gen (Suc i) st' else st')"
  by (subst gen_loop.simps) simp

lemma gen_loop_sampled_le: "sampled (gen_loop cb env max_gen i st) \<le> sampled st + (max_gen - i)"
proof (induction cb env max_gen i st rule: gen_loop.induct)
  case (1 cb env max_gen i st)
  show ?case
  proof (cases "i < max_gen \<and> \<not> stop_flag_at env i")
    case False
    then show ?thesis by (simp add: gen_loop_exit)
  next
    case True
    obtain st' c where step: "gen_step cb (sampled_token env i) st = (st', c)"
      by (cases "gen_step cb (sampled_token env i) st")
    have s': "sampled st' = Suc (sampled st)"
      using gen_step_sampled [of cb "sampled_token env i" st] step by simp
    show ?thesis
    proof (cases c)
      case False
      then show ?thesis using True step s' by (auto simp: gen_loop_step)
    next
      case c: True
      have "sampled (gen_loop cb env max_gen (Suc i) st') \<le> sampled st' + (max_gen - Suc i)"
        using "1.IH" [OF True step [symmetric] refl] c by simp
      then show ?thesis using True step s' c by (auto simp: gen_loop_step)
    qed
  qed
qed



lemma max_gen_of_pos: "0 < max_gen_of n"
  by (auto simp: max_gen_of_def word_sless_alt)

lemma final_cleanup_Nil: "final_cleanup [] = []"
  by (subst final_cleanup.simps) (simp add: im_prefix_def ascii_def)

lemma makeValidUtf8_Nil: "makeValidUtf8 [] [] = ([], [])"
  by (simp add: makeValidUtf8_def)

lemma gen_step_eog: "is_eog ev \<Longrightarrow> gen_step cb ev st = (st\<lparr>sampled := Suc (sampled st)\<rparr>, False)"
  by (simp add: gen_step_def)

section \<open>Properties of the scanner\<close>

lemma take_drop_nth: "k + n \<le> length xs \<Longrightarrow> take n (drop k xs) = map (\<lambda>j. xs ! (k + j)) [0..<n]"
  by (rule nth_equalityI) auto

lemma continuations_valid_iff:
  assumes "cl \<noteq> 0" and "i + cl \<le> length data"
  shows "continuations_valid data i cl
     \<longleftrightarrow> list_all is_continuation (take (cl - 1) (drop (Suc i) data))"
proof -
  have t: "take (cl - 1) (drop (Suc i) data) = map (\<lambda>j. data ! (Suc i + j)) [0..<cl - 1]"
    using assms by (intro take_drop_nth) simp
  have u: "[1..<cl] = map Suc [0..<cl - 1]"
    using assms(1) by (simp add: map_Suc_upt)
  have "continuations_valid data i cl
      = list_all (\<lambda>j. is_continuation (data ! (i + j))) (map Suc [0..<cl - 1])"
    unfolding continuations_valid_def u ..
  also have "\<dots> = list_all is_continuation (map (\<lambda>j. data ! (Suc i + j)) [0..<cl - 1])"
    by (simp add: list.pred_map comp_def)
  finally show ?thesis
    unfolding t .
qed

lemma scan_utf8_valid_end:
  "scan_utf8 data i v = (if valid_end (drop i data) = 0 then v else i + valid_end (drop i data))"
proof (induction data i v rule: scan_utf8.induct)
  case (1 data i v)
  show ?case
  proof (cases "i < length data")
    case False
    then show ?thesis by (subst scan_utf8.simps) simp
  next
    case True
    define c where "c = data ! i"
    define cs where "cs = drop (Suc i) data"
    define cl where "cl = char_len c"
    have dr: "drop i data = c # cs"
      using True by (simp add: c_def cs_def Cons_nth_drop_Suc)
    have len: "length cs = length data - Suc i"
      by (simp add: cs_def)
    show ?thesis
    proof (cases "cl = 0")
      case z: True
      have "scan_utf8 data i v = scan_utf8 data (i + 1) v"
        using True z by (subst scan_utf8.simps) (simp add: cl_def c_def Let_def)
      also have "\<dots> = (if valid_end cs = 0 then v else Suc i + valid_end cs)"
        using "1.IH"(1) [OF True refl] z by (simp add: cl_def c_def cs_def)
      finally show ?thesis
        using z by (simp add: dr cl_def Let_def)
    next
      case nz: False
      show ?thesis
      proof (cases "i + cl > length data")
        case over: True
        have "scan_utf8 data i v = v"
          using True nz over by (subst scan_utf8.simps) (simp add: cl_def c_def Let_def)
        moreover have "length cs < cl - 1"
          using over True len by simp
        ultimately show ?thesis
          using nz by (simp add: dr cl_def Let_def)
      next
        case fits: False
        then have fits': "i + cl \<le> length data" by simp
        have nshort: "\<not> length cs < cl - 1"
          using fits' len nz by simp
        have cv: "continuations_valid data i cl
            \<longleftrightarrow> list_all is_continuation (take (cl - 1) cs)"
          unfolding cs_def by (rule continuations_valid_iff [OF nz fits'])
        show ?thesis
        proof (cases "continuations_valid data i cl")
          case ok: True
          have "scan_utf8 data i v = scan_utf8 data (i + cl) (i + cl)"
            using True nz fits ok by (subst scan_utf8.simps) (simp add: cl_def c_def Let_def)
          also have "\<dots> = (if valid_end (drop (i + cl) data) = 0 then i + cl
              else i + cl + valid_end (drop (i + cl) data))"
            using "1.IH"(2) [OF True refl] nz fits ok by (simp add: cl_def c_def)
          finally have sc: "scan_utf8 data i v = i + cl + valid_end (drop (i + cl) data)"
            by simp
          have "drop (cl - 1) cs = drop (i + cl) data"
            using nz by (simp add: cs_def add.commute)
          then have "valid_end (c # cs) = cl + valid_end (drop (i + cl) data)"
            using nz nshort ok cv by (simp add: cl_def Let_def)
          then show ?thesis
            using sc nz by (simp add: dr)
        next
          case bad: False
          have "scan_utf8 data i v = scan_utf8 data (i + 1) v"
            using True nz fits bad by (subst scan_utf8.simps) (simp add: cl_def c_def Let_def)
          also have "\<dots> = (if valid_end cs = 0 then v else Suc i + valid_end cs)"
            using "1.IH"(3) [OF True refl] nz fits bad by (simp add: cl_def c_def cs_def)
          finally show ?thesis
            using nz nshort bad cv by (simp add: dr cl_def Let_def)
        qed
      qed
    qed
  qed
qed

lemma getValidUtf8Length_valid_end: "getValidUtf8Length data = valid_end data"
  by (simp add: getValidUtf8Length_def scan_utf8_valid_end)

lemma drop_lead: "cl \<noteq> 0 \<Longrightarrow> drop (cl + x) (c # cs) = drop x (drop (cl - 1) cs)"
  by (cases cl) (simp_all add: add.commute)

lemma take_add_append:
  assumes "v \<le> length A"
  shows "take (v + w) (A @ R) = take v A @ take w (drop v A @ R)"
proof -
  have g: "take (length P + w) (P @ Y) = P @ take w Y" for P Y :: "'a list"
    by simp
  have l: "length (take v A) = v" using assms by simp
  have a: "take v A @ (drop v A @ R) = A @ R" by simp
  show ?thesis using g [of "take v A" "drop v A @ R"] unfolding l a .
qed

lemma drop_add_append:
  assumes "v \<le> length A"
  shows "drop (v + w) (A @ R) = drop w (drop v A @ R)"
proof -
  have g: "drop (length P + w) (P @ Y) = drop w Y" for P Y :: "'a list"
    by simp
  have l: "length (take v A) = v" using assms by simp
  have a: "take v A @ (drop v A @ R) = A @ R" by simp
  show ?thesis using g [of "take v A" "drop v A @ R"] unfolding l a .
qed

lemma valid_end_le: "valid_end d \<le> length d"
proof (induction d rule: valid_end.induct)
  case 1
  then show ?case by simp
next
  case (2 c cs)
  then show ?case by (auto simp: Let_def)
qed

lemma valid_end_append:
  "valid_end (d @ e) = valid_end d + valid_end (drop (valid_end d) d @ e)"
proof (induction d rule: valid_end.induct)
  case 1
  then show ?case by simp
next
  case (2 c cs)
  define cl where "cl = char_len c"
  show ?case
  proof (cases "cl \<noteq> 0 \<and> length cs < cl - 1")
    case True
    then have "valid_end (c # cs) = 0" by (simp add: cl_def)
    then show ?thesis by simp
  next
    case nshort: False
    show ?thesis
    proof (cases "cl \<noteq> 0 \<and> list_all is_continuation (take (cl - 1) cs)")
      case ok: True
      with nshort have fit: "cl - 1 \<le> length cs" by simp
      have v: "valid_end (c # cs) = cl + valid_end (drop (cl - 1) cs)"
        using nshort ok by (simp add: cl_def Let_def)
      have "valid_end ((c # cs) @ e) = cl + valid_end (drop (cl - 1) cs @ e)"
        using nshort ok fit by (simp add: cl_def Let_def)
      also have "valid_end (drop (cl - 1) cs @ e)
          = valid_end (drop (cl - 1) cs)
            + valid_end (drop (valid_end (drop (cl - 1) cs)) (drop (cl - 1) cs) @ e)"
        using "2.IH"(1) [OF refl] nshort ok by (simp add: cl_def)
      also have "drop (valid_end (drop (cl - 1) cs)) (drop (cl - 1) cs)
          = drop (valid_end (c # cs)) (c # cs)"
        unfolding v using ok by (simp add: drop_lead)
      finally show ?thesis unfolding v by simp
    next
      case bad: False
      have v: "valid_end (c # cs) = (if valid_end cs = 0 then 0 else Suc (valid_end cs))"
        using nshort bad by (auto simp: cl_def Let_def)
      have nshort': "\<not> (cl \<noteq> 0 \<and> length (cs @ e) < cl - 1)"
        using nshort by auto
      have bad': "\<not> (cl \<noteq> 0 \<and> list_all is_continuation (take (cl - 1) (cs @ e)))"
        using nshort bad by auto
      have ve: "valid_end ((c # cs) @ e)
          = (if valid_end (cs @ e) = 0 then 0 else Suc (valid_end (cs @ e)))"
        using nshort' bad' by (auto simp: cl_def Let_def)
      have ih: "valid_end (cs @ e) = valid_end cs + valid_end (drop (valid_end cs) cs @ e)"
        using "2.IH"(2) [OF refl] nshort bad by (auto simp: cl_def)
      show ?thesis
      proof (cases "valid_end cs = 0")
        case True
        then show ?thesis using v by simp
      next
        case False
        then show ?thesis using v ve ih by simp
      qed
    qed
  qed
qed

lemma valid_end_rest: "valid_end (drop (valid_end d) d) = 0"
  using valid_end_append [of d "[]"] by simp

lemma makeValidUtf8_eq:
  "makeValidUtf8 input buf
     = (take (valid_end (buf @ input)) (buf @ input), drop (valid_end (buf @ input)) (buf @ input))"
  by (simp add: makeValidUtf8_def Let_def getValidUtf8Length_valid_end)

lemma push_all_spec:
  "valid_end buf = 0 \<Longrightarrow> push_all chunks buf = (emitted, buf') \<Longrightarrow>
   concat emitted = take (valid_end (buf @ concat chunks)) (buf @ concat chunks)
   \<and> buf' = drop (valid_end (buf @ concat chunks)) (buf @ concat chunks)"
proof (induction chunks arbitrary: buf emitted buf')
  case Nil
  then show ?case by simp
next
  case (Cons x xs)
  define v where "v = valid_end (buf @ x)"
  define b1 where "b1 = drop v (buf @ x)"
  obtain rest b2 where r: "push_all xs b1 = (rest, b2)"
    by (cases "push_all xs b1")
  have e: "emitted = take v (buf @ x) # rest" and b: "buf' = b2"
    using Cons.prems(2) r by (simp_all add: makeValidUtf8_eq v_def b1_def)
  have z: "valid_end b1 = 0"
    unfolding b1_def v_def by (rule valid_end_rest)
  define w where "w = valid_end (b1 @ concat xs)"
  have ih: "concat rest = take w (b1 @ concat xs)" "b2 = drop w (b1 @ concat xs)"
    using Cons.IH [OF z r] by (simp_all add: w_def)
  have total: "valid_end (buf @ concat (x # xs)) = v + w"
    using valid_end_append [of "buf @ x" "concat xs"] by (simp add: v_def w_def b1_def)
  have vle: "v \<le> length (buf @ x)"
    unfolding v_def by (rule valid_end_le)
  have "take (v + w) ((buf @ x) @ concat xs) = take v (buf @ x) @ take w (b1 @ concat xs)"
    unfolding b1_def by (rule take_add_append [OF vle])
  moreover have "drop (v + w) ((buf @ x) @ concat xs) = drop w (b1 @ concat xs)"
    unfolding b1_def by (rule drop_add_append [OF vle])
  ultimately show ?case
    using e b ih total by simp
qed

lemma reassemble_eq:
  "reassemble chunks = take (getValidUtf8Length (concat chunks)) (concat chunks)"
proof -
  obtain emitted buf where p: "push_all chunks [] = (emitted, buf)"
    by (cases "push_all chunks []")
  have s: "concat emitted = take (valid_end (concat chunks)) (concat chunks)"
      "buf = drop (valid_end (concat chunks)) (concat chunks)"
    using push_all_spec [OF _ p] by simp_all
  have "flush buf = []"
    using valid_end_rest [of "concat chunks"] by (simp add: flush_def makeValidUtf8_eq s(2))
  then show ?thesis
    using p s(1) by (simp add: reassemble_def getValidUtf8Length_valid_end)
qed

lemma utf8_prefix_len_le_valid_end: "utf8_prefix_len d \<le> valid_end d"
proof (induction d rule: utf8_prefix_len.induct)
  case 1
  then show ?case by simp
next
  case (2 c cs)
  then show ?case by (auto simp: Let_def)
qed

lemma utf8_prefix_len_le: "utf8_prefix_len d \<le> length d"
  using utf8_prefix_len_le_valid_end valid_end_le le_trans by blast

lemma valid_end_truncated:
  "drop (utf8_prefix_len d) d = [] \<or> truncated_sequence (drop (utf8_prefix_len d) d) \<Longrightarrow>
   valid_end d = utf8_prefix_len d"
proof (induction d rule: utf8_prefix_len.induct)
  case 1
  then show ?case by simp
next
  case (2 c cs)
  define cl where "cl = char_len c"
  show ?case
  proof (cases "cl \<noteq> 0 \<and> cl - 1 \<le> length cs \<and> list_all is_continuation (take (cl - 1) cs)")
    case True
    then have u: "utf8_prefix_len (c # cs) = cl + utf8_prefix_len (drop (cl - 1) cs)"
      by (simp add: cl_def Let_def)
    have d: "drop (utf8_prefix_len (c # cs)) (c # cs)
        = drop (utf8_prefix_len (drop (cl - 1) cs)) (drop (cl - 1) cs)"
      unfolding u using True by (simp add: drop_lead)
    have "drop (utf8_prefix_len (drop (cl - 1) cs)) (drop (cl - 1) cs) = []
        \<or> truncated_sequence (drop (utf8_prefix_len (drop (cl - 1) cs)) (drop (cl - 1) cs))"
      using "2.prems" unfolding d .
    then have "valid_end (drop (cl - 1) cs) = utf8_prefix_len (drop (cl - 1) cs)"
      by (rule "2.IH" [OF cl_def True])
    moreover have "valid_end (c # cs) = cl + valid_end (drop (cl - 1) cs)"
      using True by (simp add: cl_def Let_def)
    ultimately show ?thesis
      unfolding u by simp
  next
    case False
    then have u: "utf8_prefix_len (c # cs) = 0"
      by (auto simp: cl_def Let_def)
    then have "truncated_sequence (c # cs)"
      using "2.prems" by simp
    then have "length cs < cl - 1"
      by (simp add: truncated_sequence_def cl_def)
    then show ?thesis
      using u by (auto simp: cl_def Let_def)
  qed
qed

lemma char_len_ascii: "c < 0x80 \<Longrightarrow> char_len c = 1"
  by (simp add: char_len_def)

lemma valid_end_ascii: "\<forall>b\<in>set xs. b < 0x80 \<Longrightarrow> valid_end xs = length xs"
  by (induction xs) (simp_all add: char_len_ascii Let_def)

lemma makeValidUtf8_ascii:
  "\<forall>b\<in>set p. b < 0x80 \<Longrightarrow> makeValidUtf8 p [] = (p, [])"
  by (simp add: makeValidUtf8_eq valid_end_ascii)

section \<open>Properties of find and of the final cleanup\<close>

lemma str_find_bound: "str_find s pat = Some pos \<Longrightarrow> pos + length pat \<le> length s"
  by (induction s arbitrary: pos) (auto split: if_splits dest: prefix_length_le)

lemma str_find_None_iff: "str_find s pat = None \<longleftrightarrow> \<not> sublist pat s"
  by (induction s) (auto simp: sublist_Cons_right)

lemma str_find_first:
  "str_find s pat = Some n \<Longrightarrow> pat \<noteq> [] \<Longrightarrow> \<not> sublist pat (take n s)"
proof (induction s arbitrary: n)
  case Nil
  then show ?case by (simp split: if_splits)
next
  case (Cons x xs)
  show ?case
  proof (cases "prefix pat (x # xs)")
    case True
    with Cons.prems show ?thesis by simp
  next
    case False
    with Cons.prems obtain k where k: "str_find xs pat = Some k" "n = Suc k"
      by auto
    have "\<not> prefix pat (x # take k xs)"
      using False take_is_prefix [of k xs] by (meson Cons_prefix_Cons prefix_order.trans)
    moreover have "\<not> sublist pat (take k xs)"
      using Cons.IH [OF k(1) Cons.prems(2)] .
    ultimately show ?thesis
      using k(2) by (simp add: sublist_Cons_right)
  qed
qed

lemma im_prefix_nonempty: "im_prefix \<noteq> []"
  by (simp add: im_prefix_def ascii_def)

lemma final_cleanup_clean: "\<not> sublist im_prefix (final_cleanup res)"
proof (induction res rule: final_cleanup.induct)
  case (1 res)
  show ?case
  proof (cases "str_find res im_prefix")
    case None
    then have "\<not> sublist im_prefix res"
      by (simp add: str_find_None_iff)
    then show ?thesis
      using None by (subst final_cleanup.simps) simp
  next
    case (Some pos)
    then show ?thesis
      using "1.IH" [OF Some] by (subst final_cleanup.simps) simp
  qed
qed

lemma sublist_of_sublist: "sublist pat xs \<Longrightarrow> sublist xs ys \<Longrightarrow> sublist pat ys"
  by (rule sublist_order.order.trans)

lemma makeValidUtf8_sublist: "sublist (fst (makeValidUtf8 input [])) input"
  by (simp add: makeValidUtf8_def Let_def)

lemma c_str_sublist: "sublist (c_str s) s"
  by (simp add: c_str_def)

lemma returned_text_clean:
  "\<not> sublist im_prefix (c_str (fst (makeValidUtf8 (final_cleanup res) [])))"
  using final_cleanup_clean [of res] c_str_sublist makeValidUtf8_sublist sublist_of_sublist
  by blast

lemma error_text_clean: "\<not> sublist im_prefix (error_text e)"
  by (cases e) (simp_all add: im_prefix_def ascii_def sublist_Cons_right)

lemma jstring_clean: "\<not> sublist im_prefix (jstring_of (returned (nativeGenerate s req env)))"
  by (simp add: nativeGenerate_def Let_def jstring_of_def error_text_clean returned_text_clean
      del: error_text.simps)

lemma im_prefix_of_markers: "prefix im_prefix im_end" "prefix im_prefix im_start"
  by (simp_all add: im_prefix_def im_end_def im_start_def ascii_def)

lemma long_prefix_has_im_prefix:
  assumes "prefix p im_end \<or> prefix p im_start" and "5 \<le> length p"
  shows "prefix im_prefix p"
proof -
  have len: "length im_prefix = 5" by (simp add: im_prefix_def ascii_def)
  from assms(1) obtain m where m: "prefix p m" "prefix im_prefix m"
    using im_prefix_of_markers by blast
  then show ?thesis
    using assms(2) len by (metis prefix_length_prefix)
qed

section \<open>Runs over plain text\<close>

lemma hi_there_bytes: "\<forall>b\<in>set hi_there. b < 0x80 \<and> b \<noteq> 0 \<and> b \<noteq> 0x3C"
  by (simp add: hi_there_def ascii_def)

lemma lt_in_markers: "0x3C \<in> set im_end" "0x3C \<in> set im_start" "0x3C \<in> set im_prefix"
  by (simp_all add: im_end_def im_start_def im_prefix_def ascii_def)

lemma no_lt_no_marker:
  assumes "0x3C \<notin> set x"
  shows "\<not> sublist im_end x" "\<not> sublist im_start x" "\<not> sublist im_prefix x"
  using assms lt_in_markers set_mono_sublist by blast+

lemma c_str_no_nul: "\<forall>b\<in>set p. b \<noteq> 0 \<Longrightarrow> c_str p = p"
  by (simp add: c_str_def)

lemma stream_callback_plain:
  assumes "\<forall>b\<in>set q. b < 0x80 \<and> b \<noteq> 0" and "utf8_buffer st = []" and "pending_output st = q"
  shows "stream_callback True js st
    = (if q = [] then st else
        st\<lparr>utf8_buffer := [], pending_output := [],
           sink_calls := (if js then sink_calls st @ [q] else sink_calls st)\<rparr>)"
proof -
  have m: "makeValidUtf8 q [] = (q, [])"
    using assms(1) by (intro makeValidUtf8_ascii) simp
  have c: "c_str q = q"
    using assms(1) by (intro c_str_no_nul) simp
  show ?thesis
    using assms(2,3) by (simp add: stream_callback_def m c Let_def)
qed

lemma gen_step_plain:
  assumes ev: "\<not> is_eog ev" "piece ev = Some p"
    and p: "\<forall>b\<in>set p. b < 0x80 \<and> b \<noteq> 0"
    and buf: "utf8_buffer st = []" and pend: "cb \<longrightarrow> pending_output st = []"
    and len: "length (recent_output st @ p) \<le> 50"
    and clean: "0x3C \<notin> set (recent_output st @ p)"
  shows "snd (gen_step cb ev st) = decode_ok ev"
    and "result (fst (gen_step cb ev st)) = result st @ p"
    and "recent_output (fst (gen_step cb ev st)) = recent_output st @ p"
    and "utf8_buffer (fst (gen_step cb ev st)) = []"
    and "cb \<longrightarrow> pending_output (fst (gen_step cb ev st)) = []"
    and "sink_calls (fst (gen_step cb ev st))
          = (if cb \<and> p \<noteq> [] \<and> jstring_ok ev then sink_calls st @ [p] else sink_calls st)"
    and "sampled (fst (gen_step cb ev st)) = Suc (sampled st)"
proof -
  have f1: "str_find (recent_output st @ p) im_end = None"
    using no_lt_no_marker(1) [OF clean] by (simp add: str_find_None_iff)
  have f2: "str_find (recent_output st @ p) im_start = None"
    using no_lt_no_marker(2) [OF clean] by (simp add: str_find_None_iff)
  define st5 where "st5 = st\<lparr>sampled := Suc (sampled st), recent_output := recent_output st @ p,
      result := result st @ p, pending_output := pending_output st @ p\<rparr>"
  have step: "gen_step cb ev st = (stream_callback cb (jstring_ok ev) st5, decode_ok ev)"
    using ev len f1 f2 by (simp add: gen_step_def Let_def st5_def)
  show "snd (gen_step cb ev st) = decode_ok ev"
    by (simp add: step)
  show "sampled (fst (gen_step cb ev st)) = Suc (sampled st)"
    by (simp add: gen_step_sampled)
  have fs: "fst (gen_step cb ev st)
      = (if cb \<and> p \<noteq> [] then
           st5\<lparr>utf8_buffer := [], pending_output := [],
             sink_calls := (if jstring_ok ev then sink_calls st5 @ [p] else sink_calls st5)\<rparr>
         else st5)"
  proof (cases cb)
    case False
    then show ?thesis
      unfolding step by (simp add: stream_callback_def)
  next
    case True
    have pq: "pending_output st5 = p" "utf8_buffer st5 = []"
      using True pend buf by (simp_all add: st5_def)
    show ?thesis
      unfolding step using stream_callback_plain [OF p pq(2) pq(1)] True by simp
  qed
  show "result (fst (gen_step cb ev st)) = result st @ p"
    unfolding fs by (simp add: st5_def)
  show "recent_output (fst (gen_step cb ev st)) = recent_output st @ p"
    unfolding fs by (simp add: st5_def)
  show "utf8_buffer (fst (gen_step cb ev st)) = []"
    unfolding fs using buf by (simp add: st5_def)
  show "cb \<longrightarrow> pending_output (fst (gen_step cb ev st)) = []"
    unfolding fs using pend by (simp add: st5_def)
  show "sink_calls (fst (gen_step cb ev st))
          = (if cb \<and> p \<noteq> [] \<and> jstring_ok ev then sink_calls st @ [p] else sink_calls st)"
    unfolding fs by (simp add: st5_def)
qed

lemma concat_take_Suc: "k < length ps \<Longrightarrow> concat (take (Suc k) ps) = concat (take k ps) @ ps ! k"
  by (simp add: take_Suc_conv_app_nth)

lemma set_concat_take: "set (concat (take k ps)) \<subseteq> set (concat ps)"
  by (auto dest: in_set_takeD)

lemma length_concat_take: "length (concat (take k ps)) \<le> length (concat ps)"
proof -
  have "concat ps = concat (take k ps) @ concat (drop k ps)"
    by (metis append_take_drop_id concat_append)
  then show ?thesis by (metis le_add1 length_append)
qed

lemma gen_loop_pieces:
  assumes toks: "\<forall>i<length ps. sampled_token env i = piece_token (ps ! i)"
    and nostop: "\<forall>i<length ps. \<not> stop_flag_at env i"
    and budget: "length ps \<le> mg"
    and bytes: "\<forall>b\<in>set (concat ps). b < 0x80 \<and> b \<noteq> 0 \<and> b \<noteq> 0x3C"
    and len: "length (concat ps) \<le> 50"
  shows "k \<le> length ps \<Longrightarrow> pieces_state cb (take k ps) st \<Longrightarrow>
    \<exists>st'. gen_loop cb env mg k st = gen_loop cb env mg (length ps) st' \<and> pieces_state cb ps st'"
proof (induction "length ps - k" arbitrary: k st)
  case 0
  then have "take k ps = ps" by simp
  with 0 show ?case by auto
next
  case (Suc d)
  then have k: "k < length ps" by simp
  define p where "p = ps ! k"
  define ev where "ev = piece_token p"
  have ev: "\<not> is_eog ev" "piece ev = Some p" "jstring_ok ev" "decode_ok ev"
    by (simp_all add: ev_def piece_token_def)
  have st: "result st = concat (take k ps)" "recent_output st = concat (take k ps)"
    "utf8_buffer st = []" "cb \<longrightarrow> pending_output st = []"
    "sink_calls st = (if cb then filter (\<lambda>p. p \<noteq> []) (take k ps) else [])"
    "sampled st = length (take k ps)"
    using Suc.prems(2) by (simp_all add: pieces_state_def)
  have next_text: "recent_output st @ p = concat (take (Suc k) ps)"
    using k by (simp add: st(2) p_def concat_take_Suc)
  have sub: "set (recent_output st @ p) \<subseteq> set (concat ps)"
    unfolding next_text by (rule set_concat_take)
  have "set p \<subseteq> set (recent_output st @ p)"
    by simp
  then have pin: "set p \<subseteq> set (concat ps)"
    using sub by (rule subset_trans)
  have pb: "\<forall>b\<in>set p. b < 0x80 \<and> b \<noteq> 0"
    using pin bytes by blast
  have l: "length (recent_output st @ p) \<le> 50"
    unfolding next_text using length_concat_take [of "Suc k" ps] len by simp
  have clean: "0x3C \<notin> set (recent_output st @ p)"
    using sub bytes by blast
  note g = gen_step_plain [OF ev(1,2) pb st(3,4) l clean]
  define st1 where "st1 = fst (gen_step cb ev st)"
  have step: "gen_step cb ev st = (st1, True)"
    using g(1) ev(4) by (simp add: st1_def prod_eq_iff)
  have tk: "take (Suc k) ps = take k ps @ [p]"
    using k by (simp add: take_Suc_conv_app_nth p_def)
  have inv: "pieces_state cb (take (Suc k) ps) st1"
    unfolding pieces_state_def st1_def
    using g(2-7) ev(3) st k by (simp add: tk)
  have "sampled_token env k = ev"
    using toks k by (simp add: ev_def p_def)
  then have "gen_loop cb env mg k st = gen_loop cb env mg (Suc k) st1"
    using gen_loop_step [of k mg env cb st st1 True] step k budget nostop by simp
  moreover have "\<exists>st'. gen_loop cb env mg (Suc k) st1 = gen_loop cb env mg (length ps) st'
      \<and> pieces_state cb ps st'"
    using Suc.hyps(2) k by (intro Suc.hyps(1) inv) simp_all
  ultimately show ?case by simp
qed

lemma hi_there_marker_facts:
  "length hi_there = 9" "length im_end = 10"
  "str_find (hi_there @ im_end) im_end \<noteq> None"
  "str_find (hi_there @ im_end) im_start = None"
  "cut_at_last im_end hi_there = hi_there"
  "cut_at_last im_end_partial hi_there = hi_there"
  "final_cleanup hi_there = hi_there"
  by code_simp+

lemma gen_step_marker:
  assumes "\<not> is_eog ev" and "piece ev = Some im_end"
    and "recent_output st = hi_there" and "result st = hi_there"
  shows "gen_step cb ev st
    = (st\<lparr>sampled := Suc (sampled st), recent_output := hi_there @ im_end\<rparr>, False)"
  using assms by (simp add: gen_step_def Let_def hi_there_marker_facts)

lemma concat_filter_nonempty: "concat (filter (\<lambda>p. p \<noteq> []) ps) = concat ps"
  by (induction ps) auto

lemma hd_im_end: "hd im_end = 0x3C"
  by (simp add: im_end_def ascii_def)

lemma nativeGenerate_loaded:
  assumes "nativeIsModelLoaded s" and "0 \<le> tokenize env (prompt req)" and "prompt_decode_ok env"
  shows "returned (nativeGenerate s req env)
      = Inr (c_str (fst (makeValidUtf8 (final_cleanup (result
          (gen_loop (has_callback req) env (max_gen_of (maxTokens req)) 0 init_loop_state))) [])))"
    and "sink_received (nativeGenerate s req env)
      = sink_calls (flush_pending (has_callback req) (flush_jstring_ok env)
          (gen_loop (has_callback req) env (max_gen_of (maxTokens req)) 0 init_loop_state))"
    and "tokens_sampled (nativeGenerate s req env)
      = sampled (gen_loop (has_callback req) env (max_gen_of (maxTokens req)) 0 init_loop_state)"
  using assms
  by (auto simp: nativeGenerate_def nativeIsModelLoaded_def Let_def flush_pending_result
      flush_pending_sampled)

section \<open>C1: what the reassembler emits\<close>

text \<open>
  C1 says that, whatever the input and its division into \<^verbatim>\<open>push\<close> calls, the
  emissions and the final flush together are the valid-UTF-8-decodable prefix of the
  whole input. The code documents the same intent (\<^verbatim>\<open>getValidUtf8Length\<close>: "Returns
  the number of valid bytes from the start"; \<^verbatim>\<open>makeValidUtf8\<close>: "Create a valid
  UTF-8 string") and misses it: when the scanner skips a malformed byte and then
  accepts a code point, \<^verbatim>\<open>valid_len = i + char_len\<close> counts the skipped byte. On the
  input \<^verbatim>\<open>80 41\<close>, in one \<^verbatim>\<open>push\<close> or in two, the valid prefix is empty and both
  bytes are emitted, a text that is not well-formed. On \<^verbatim>\<open>41 80\<close>, where nothing
  well-formed follows the malformed byte, the emission is the valid prefix \<^verbatim>\<open>41\<close>.
\<close>

theorem reassembler_emits_invalid_bytes:
  "reassemble [[0x80, 0x41]] = [0x80, 0x41]
   \<and> reassemble [[0x80], [0x41]] = [0x80, 0x41]
   \<and> valid_utf8_prefix (concat [[0x80, 0x41]]) = []
   \<and> reassemble [[0x80, 0x41]] \<noteq> valid_utf8_prefix (concat [[0x80, 0x41]])
   \<and> \<not> wf_utf8 (reassemble [[0x80, 0x41]])
   \<and> getValidUtf8Length [0x80, 0x41] = 2
   \<and> reassemble [[0x41, 0x80]] = valid_utf8_prefix (concat [[0x41, 0x80]])
   \<and> reassemble [[0x41, 0x80]] = [0x41]"
proof -
  have a: "reassemble [[0x80, 0x41]] = [0x80, 0x41]" by code_simp
  have a2: "reassemble [[0x80], [0x41]] = [0x80, 0x41]" by code_simp
  have b: "valid_utf8_prefix (concat [[0x80, 0x41]]) = []" by code_simp
  have c: "\<not> wf_utf8 [0x80, 0x41]" by code_simp
  have d: "getValidUtf8Length [0x80, 0x41] = 2" by code_simp
  have e: "reassemble [[0x41, 0x80]] = [0x41]" by code_simp
  have f: "valid_utf8_prefix (concat [[0x41, 0x80]]) = [0x41]" by code_simp
  show ?thesis using a a2 b c d e f by simp
qed

text \<open>
  Where the claim does hold: when what follows the valid prefix of the whole input is
  nothing or one truncated sequence (a valid stream cut at any byte), the emissions are
  that valid prefix, however the input is divided; so a well-formed string split at any
  position into two \<^verbatim>\<open>push\<close> calls is reassembled exactly.
\<close>

lemma reassembler_on_valid_streams:
  "(drop (utf8_prefix_len (concat chunks)) (concat chunks) = []
        \<or> truncated_sequence (drop (utf8_prefix_len (concat chunks)) (concat chunks))
      \<longrightarrow> reassemble chunks = valid_utf8_prefix (concat chunks))
   \<and> (wf_utf8 s \<and> k \<le> length s \<longrightarrow> reassemble [take k s, drop k s] = s)"
proof -
  have r: "reassemble cs = take (valid_end (concat cs)) (concat cs)" for cs
    by (simp add: reassemble_eq getValidUtf8Length_valid_end)
  have c: "reassemble cs = valid_utf8_prefix (concat cs)"
    if "drop (utf8_prefix_len (concat cs)) (concat cs) = []
        \<or> truncated_sequence (drop (utf8_prefix_len (concat cs)) (concat cs))" for cs
    unfolding r valid_utf8_prefix_def using valid_end_truncated [OF that] by simp
  have d: "reassemble [take k s, drop k s] = s" if "wf_utf8 s" "k \<le> length s"
  proof -
    have cc: "concat [take k s, drop k s] = s" by simp
    have "drop (utf8_prefix_len s) s = []"
      using that(1) by (simp add: wf_utf8_def)
    then have "reassemble [take k s, drop k s] = valid_utf8_prefix s"
      using c [of "[take k s, drop k s]"] unfolding cc by simp
    then show ?thesis
      using that(1) by (simp add: valid_utf8_prefix_def wf_utf8_def)
  qed
  show ?thesis using c d by blast
qed

section \<open>C2: the text given to the callback\<close>

text \<open>
  C2 says that every text given to the callback is non-empty valid UTF-8. The loop
  keeps the bytes of an incomplete sequence twice: \<^verbatim>\<open>makeValidUtf8\<close> stores them in
  \<^verbatim>\<open>utf8_buffer\<close>, and \<^verbatim>\<open>pending_output\<close> is cleared only after a non-empty
  emission, so the next call scans the buffer followed by the same bytes again. When
  the two bytes \<^verbatim>\<open>C3 A9\<close> of one character arrive in two tokens, the callback
  receives \<^verbatim>\<open>C3 C3 A9\<close>, which is not well-formed although the stream is. A stray
  continuation byte in front of a letter, in one piece, is skipped by the scanner but
  lies inside the prefix it returns, and is emitted with the letter. And a piece that is
  the single byte NUL is not empty as a \<^verbatim>\<open>std::string\<close>, but its \<^verbatim>\<open>c_str()\<close>
  is the empty string, which the callback then receives.
\<close>

theorem sink_receives_invalid_utf8:
  "wf_utf8 (concat [[0xC3], [0xA9]])
   \<and> sink_received (nativeGenerate loaded_session (request_of ''Hello'' 0 True)
        (scripted_env [[0xC3], [0xA9]])) = [[0xC3, 0xC3, 0xA9]]
   \<and> \<not> wf_utf8 [0xC3, 0xC3, 0xA9]
   \<and> sink_received (nativeGenerate loaded_session (request_of ''Hello'' 0 True)
        (scripted_env [[0x80, 0x41]])) = [[0x80, 0x41]]
   \<and> \<not> wf_utf8 [0x80, 0x41]
   \<and> sink_received (nativeGenerate loaded_session (request_of ''Hello'' 0 True)
        (scripted_env [[0x00]])) = [[]]"
proof -
  have a: "wf_utf8 (concat [[0xC3], [0xA9]])" by code_simp
  have b: "sink_received (nativeGenerate loaded_session (request_of ''Hello'' 0 True)
        (scripted_env [[0xC3], [0xA9]])) = [[0xC3, 0xC3, 0xA9]]"
    by code_simp
  have c: "\<not> wf_utf8 [0xC3, 0xC3, 0xA9]" by code_simp
  have d: "sink_received (nativeGenerate loaded_session (request_of ''Hello'' 0 True)
        (scripted_env [[0x80, 0x41]])) = [[0x80, 0x41]]"
    by code_simp
  have e: "\<not> wf_utf8 [0x80, 0x41]" by code_simp
  have f: "sink_received (nativeGenerate loaded_session (request_of ''Hello'' 0 True)
        (scripted_env [[0x00]])) = [[]]"
    by code_simp
  show ?thesis using a b c d e f by simp
qed

section \<open>C3: markers in the returned text\<close>

text \<open>
  C3, as stated: the returned text contains no marker and does not end with a proper
  non-empty prefix of a marker. The second part fails for the prefixes shorter than
  \<^verbatim>\<open><|im_\<close>: the final cleanup looks for \<^verbatim>\<open><|im_\<close> only, so a text ending with
  \<^verbatim>\<open><\<close> is returned as it is.
\<close>

theorem returned_text_short_prefix_counterexample:
  "returned (nativeGenerate loaded_session (request_of ''Hello'' 0 True) (scripted_env [ascii ''1 <'']))
     = Inr (ascii ''1 <'')
   \<and> suffix (ascii ''<'') (ascii ''1 <'')
   \<and> strict_prefix (ascii ''<'') im_end
   \<and> ascii ''<'' \<noteq> []"
proof -
  have "returned (nativeGenerate loaded_session (request_of ''Hello'' 0 True) (scripted_env [ascii ''1 <'']))
     = Inr (ascii ''1 <'')"
    by code_simp
  moreover have "suffix (ascii ''<'') (ascii ''1 <'')"
    by (simp add: ascii_def suffix_def)
  moreover have "strict_prefix (ascii ''<'') im_end"
    by (simp add: ascii_def im_end_def strict_prefix_def)
  moreover have "ascii ''<'' \<noteq> []"
    by (simp add: ascii_def)
  ultimately show ?thesis by simp
qed

text \<open>
  C3, amended. The text returned by \<^verbatim>\<open>nativeGenerate\<close> (an error text included)
  never contains \<^verbatim>\<open><|im_\<close>; hence it contains neither \<^verbatim>\<open><|im_end|>\<close> nor
  \<^verbatim>\<open><|im_start|>\<close>, and it does not end with a prefix of a marker that has five
  bytes or more.
\<close>

theorem returned_text_has_no_marker:
  "\<not> sublist im_prefix (jstring_of (returned (nativeGenerate s req env)))
   \<and> \<not> sublist im_end (jstring_of (returned (nativeGenerate s req env)))
   \<and> \<not> sublist im_start (jstring_of (returned (nativeGenerate s req env)))
   \<and> (\<forall>p. (prefix p im_end \<or> prefix p im_start) \<and> 5 \<le> length p
          \<longrightarrow> \<not> suffix p (jstring_of (returned (nativeGenerate s req env))))"
proof -
  let ?t = "jstring_of (returned (nativeGenerate s req env))"
  have clean: "\<not> sublist im_prefix ?t" by (rule jstring_clean)
  have a: "\<not> sublist im_end ?t"
    using clean im_prefix_of_markers(1) sublist_of_sublist by blast
  have b: "\<not> sublist im_start ?t"
    using clean im_prefix_of_markers(2) sublist_of_sublist by blast
  have c: "\<not> suffix p ?t" if "(prefix p im_end \<or> prefix p im_start) \<and> 5 \<le> length p" for p
  proof
    assume "suffix p ?t"
    moreover have "prefix im_prefix p" using that long_prefix_has_im_prefix by blast
    ultimately have "sublist im_prefix ?t"
      using sublist_of_sublist by blast
    with clean show False by contradiction
  qed
  show ?thesis using clean a b c by blast
qed

theorem returned_text_has_no_marker_witness:
  "prefix im_prefix im_end \<and> 5 \<le> length im_prefix
   \<and> returned (nativeGenerate loaded_session (request_of ''Hello'' 0 True)
        (scripted_env [ascii ''Hi<|im_'', ascii ''sta''])) = Inr (ascii ''Hi'')
   \<and> \<not> suffix im_prefix (jstring_of (returned (nativeGenerate loaded_session
        (request_of ''Hello'' 0 True) (scripted_env [ascii ''Hi<|im_'', ascii ''sta'']))))"
proof -
  have h1: "prefix im_prefix im_end"
    by (simp add: im_prefix_def im_end_def ascii_def)
  have h2: "5 \<le> length im_prefix"
    by (simp add: im_prefix_def ascii_def)
  have r: "returned (nativeGenerate loaded_session (request_of ''Hello'' 0 True)
        (scripted_env [ascii ''Hi<|im_'', ascii ''sta''])) = Inr (ascii ''Hi'')"
    by code_simp
  show ?thesis
    using h1 h2 r
      returned_text_has_no_marker [of loaded_session "request_of ''Hello'' 0 True"
        "scripted_env [ascii ''Hi<|im_'', ascii ''sta'']"]
    by blast
qed

section \<open>C4: the example Hi there!\<close>

text \<open>
  C4 says that for every division of \<^verbatim>\<open>Hi there!<|im_end|>\<close> into token pieces the
  result is exactly \<^verbatim>\<open>Hi there!\<close>. The code sets out to do so: on detection of the
  marker it removes "the stop sequence from result if partially added", cutting the
  result at \<^verbatim>\<open><|im_end|>\<close> and at \<^verbatim>\<open><|im_end\<close>, and the final cleanup cuts at
  \<^verbatim>\<open><|im_\<close>. With the pieces \<^verbatim>\<open>Hi there!<|im\<close> and \<^verbatim>\<open>_end|>\<close> the marker is
  detected at the second piece, but the part of it already appended, \<^verbatim>\<open><|im\<close>, is
  shorter than every string the code cuts at: the run returns \<^verbatim>\<open>Hi there!<|im\<close>, with
  a callback or without. The divisions \<^verbatim>\<open><|im_end\<close> + \<^verbatim>\<open>|>\<close> and \<^verbatim>\<open><|im_\<close> +
  \<^verbatim>\<open>end|>\<close> return \<^verbatim>\<open>Hi there!\<close>. The callback has received the first piece before
  the marker was complete, since the loop streams every piece at once.
\<close>

theorem marker_split_leaves_fragment:
  "concat [ascii ''Hi there!<|im'', ascii ''_end|>''] = ascii ''Hi there!<|im_end|>''
   \<and> returned (nativeGenerate loaded_session (request_of ''Hello'' 0 True)
        (scripted_env [ascii ''Hi there!<|im'', ascii ''_end|>''])) = Inr (ascii ''Hi there!<|im'')
   \<and> returned (nativeGenerate loaded_session (request_of ''Hello'' 0 False)
        (scripted_env [ascii ''Hi there!<|im'', ascii ''_end|>''])) = Inr (ascii ''Hi there!<|im'')
   \<and> ascii ''Hi there!<|im'' \<noteq> ascii ''Hi there!''
   \<and> tokens_sampled (nativeGenerate loaded_session (request_of ''Hello'' 0 True)
        (scripted_env [ascii ''Hi there!<|im'', ascii ''_end|>''])) = 2
   \<and> sink_received (nativeGenerate loaded_session (request_of ''Hello'' 0 True)
        (scripted_env [ascii ''Hi there!<|im'', ascii ''_end|>''])) = [ascii ''Hi there!<|im'']
   \<and> returned (nativeGenerate loaded_session (request_of ''Hello'' 0 True)
        (scripted_env [ascii ''Hi there!'', ascii ''<|im_end'', ascii ''|>''])) = Inr (ascii ''Hi there!'')
   \<and> returned (nativeGenerate loaded_session (request_of ''Hello'' 0 True)
        (scripted_env [ascii ''Hi there!'', ascii ''<|im_'', ascii ''end|>''])) = Inr (ascii ''Hi there!'')"
proof -
  have a: "concat [ascii ''Hi there!<|im'', ascii ''_end|>''] = ascii ''Hi there!<|im_end|>''"
    by (simp add: ascii_def)
  have b: "returned (nativeGenerate loaded_session (request_of ''Hello'' 0 True)
        (scripted_env [ascii ''Hi there!<|im'', ascii ''_end|>''])) = Inr (ascii ''Hi there!<|im'')"
    by code_simp
  have c: "returned (nativeGenerate loaded_session (request_of ''Hello'' 0 False)
        (scripted_env [ascii ''Hi there!<|im'', ascii ''_end|>''])) = Inr (ascii ''Hi there!<|im'')"
    by code_simp
  have d: "ascii ''Hi there!<|im'' \<noteq> ascii ''Hi there!''"
    by (simp add: ascii_def)
  have e: "tokens_sampled (nativeGenerate loaded_session (request_of ''Hello'' 0 True)
        (scripted_env [ascii ''Hi there!<|im'', ascii ''_end|>''])) = 2"
    by code_simp
  have f: "sink_received (nativeGenerate loaded_session (request_of ''Hello'' 0 True)
        (scripted_env [ascii ''Hi there!<|im'', ascii ''_end|>''])) = [ascii ''Hi there!<|im'']"
    by code_simp
  have g: "returned (nativeGenerate loaded_session (request_of ''Hello'' 0 True)
        (scripted_env [ascii ''Hi there!'', ascii ''<|im_end'', ascii ''|>''])) = Inr (ascii ''Hi there!'')"
    by code_simp
  have h: "returned (nativeGenerate loaded_session (request_of ''Hello'' 0 True)
        (scripted_env [ascii ''Hi there!'', ascii ''<|im_'', ascii ''end|>''])) = Inr (ascii ''Hi there!'')"
    by code_simp
  show ?thesis using a b c d e f g h by simp
qed

text \<open>
  Where the example holds in full: when the marker \<^verbatim>\<open><|im_end|>\<close> arrives as one
  token piece, after pieces that divide \<^verbatim>\<open>Hi there!\<close> in any way (empty pieces
  allowed), every engine and JNI call succeeding and no stop request made, the result
  is exactly \<^verbatim>\<open>Hi there!\<close>, and the callback, if there is one, receives the
  non-empty pieces of \<^verbatim>\<open>Hi there!\<close> in order and nothing else.
\<close>

lemma marker_in_one_piece:
  assumes loaded: "nativeIsModelLoaded s" and tok: "0 \<le> tokenize env (prompt req)"
    and primed: "prompt_decode_ok env"
    and split: "concat ps = ascii ''Hi there!''"
    and toks: "\<forall>i<length ps. sampled_token env i = piece_token (ps ! i)"
    and marker: "\<not> is_eog (sampled_token env (length ps))
        \<and> piece (sampled_token env (length ps)) = Some im_end"
    and nostop: "\<forall>i\<le>length ps. \<not> stop_flag_at env i"
    and budget: "length ps < max_gen_of (maxTokens req)"
  shows "returned (nativeGenerate s req env) = Inr (ascii ''Hi there!'')
    \<and> sink_received (nativeGenerate s req env)
        = (if has_callback req then filter (\<lambda>p. p \<noteq> []) ps else [])
    \<and> concat (sink_received (nativeGenerate s req env))
        = (if has_callback req then ascii ''Hi there!'' else [])
    \<and> (\<forall>chunk\<in>set (sink_received (nativeGenerate s req env)). hd im_end \<notin> set chunk)"
proof -
  define cb where "cb = has_callback req"
  define mg where "mg = max_gen_of (maxTokens req)"
  define n where "n = length ps"
  have cp: "concat ps = hi_there"
    using split by (simp add: hi_there_def)
  have bytes: "\<forall>b\<in>set (concat ps). b < 0x80 \<and> b \<noteq> 0 \<and> b \<noteq> 0x3C"
    unfolding cp by (rule hi_there_bytes)
  have len: "length (concat ps) \<le> 50"
    unfolding cp by (simp add: hi_there_marker_facts)
  have init: "pieces_state cb (take 0 ps) init_loop_state"
    by (simp add: pieces_state_def init_loop_state_def)
  obtain st' where run: "gen_loop cb env mg 0 init_loop_state = gen_loop cb env mg (length ps) st'"
    and inv: "pieces_state cb ps st'"
    using gen_loop_pieces [OF toks _ _ bytes len _ init, of mg] nostop budget
    by (auto simp: mg_def)
  have st': "result st' = hi_there" "recent_output st' = hi_there"
    "cb \<longrightarrow> pending_output st' = []"
    "sink_calls st' = (if cb then filter (\<lambda>p. p \<noteq> []) ps else [])"
    using inv by (simp_all add: pieces_state_def cp)
  define st'' where "st'' = st'\<lparr>sampled := Suc (sampled st'), recent_output := hi_there @ im_end\<rparr>"
  have "gen_step cb (sampled_token env (length ps)) st' = (st'', False)"
    unfolding st''_def using marker st'(1,2) by (intro gen_step_marker) simp_all
  then have "gen_loop cb env mg (length ps) st' = st''"
    using gen_loop_step [of "length ps" mg env cb st' st'' False] budget nostop
    by (simp add: mg_def)
  then have loop: "gen_loop cb env mg 0 init_loop_state = st''"
    using run by simp
  have fl: "flush_pending cb (flush_jstring_ok env) st'' = st''"
    using st'(3) by (auto simp: flush_pending_def st''_def)
  have res: "result st'' = hi_there"
    and sink: "sink_calls st'' = (if cb then filter (\<lambda>p. p \<noteq> []) ps else [])"
    using st' by (simp_all add: st''_def)
  have mv: "makeValidUtf8 hi_there [] = (hi_there, [])"
    using hi_there_bytes by (intro makeValidUtf8_ascii) simp
  have cs: "c_str hi_there = hi_there"
    using hi_there_bytes by (intro c_str_no_nul) simp
  note gen = nativeGenerate_loaded [OF loaded tok primed, folded cb_def mg_def]
  have ret: "returned (nativeGenerate s req env) = Inr hi_there"
    unfolding gen(1) loop res by (simp add: hi_there_marker_facts mv cs)
  have snk: "sink_received (nativeGenerate s req env)
      = (if cb then filter (\<lambda>p. p \<noteq> []) ps else [])"
    unfolding gen(2) loop fl by (rule sink)
  have cc: "concat (sink_received (nativeGenerate s req env)) = (if cb then hi_there else [])"
    unfolding snk by (simp add: concat_filter_nonempty cp)
  have nolt: "hd im_end \<notin> set chunk" if "chunk \<in> set (sink_received (nativeGenerate s req env))"
    for chunk
  proof -
    from that have "chunk \<in> set ps"
      unfolding snk by (auto split: if_splits)
    then have "set chunk \<subseteq> set (concat ps)" by auto
    then show ?thesis
      using bytes by (auto simp: hd_im_end)
  qed
  show ?thesis
    using ret snk cc nolt by (simp add: cb_def hi_there_def)
qed

lemma marker_in_one_piece_example:
  "concat [ascii ''Hi '', [], ascii ''there'', ascii ''!''] = ascii ''Hi there!''
   \<and> returned (nativeGenerate loaded_session (request_of ''Hello'' 0 True)
        (scripted_env ([ascii ''Hi '', [], ascii ''there'', ascii ''!''] @ [im_end])))
       = Inr (ascii ''Hi there!'')
   \<and> sink_received (nativeGenerate loaded_session (request_of ''Hello'' 0 True)
        (scripted_env ([ascii ''Hi '', [], ascii ''there'', ascii ''!''] @ [im_end])))
       = [ascii ''Hi '', ascii ''there'', ascii ''!'']"
proof -
  let ?ps = "[ascii ''Hi '', [], ascii ''there'', ascii ''!'']"
  let ?env = "scripted_env (?ps @ [im_end])"
  let ?req = "request_of ''Hello'' 0 True"
  have h1: "nativeIsModelLoaded loaded_session"
    by (simp add: nativeIsModelLoaded_def loaded_session_def)
  have h2: "0 \<le> tokenize ?env (prompt ?req)"
    by (simp add: scripted_env_def)
  have h3: "prompt_decode_ok ?env"
    by (simp add: scripted_env_def)
  have h4: "concat ?ps = ascii ''Hi there!''"
    by (simp add: ascii_def)
  have h5: "\<forall>i<length ?ps. sampled_token ?env i = piece_token (?ps ! i)"
    by (auto simp: scripted_env_def less_Suc_eq)
  have h6: "\<not> is_eog (sampled_token ?env (length ?ps))
      \<and> piece (sampled_token ?env (length ?ps)) = Some im_end"
    by (simp add: scripted_env_def piece_token_def)
  have h7: "\<forall>i\<le>length ?ps. \<not> stop_flag_at ?env i"
    by (simp add: scripted_env_def)
  have h8: "length ?ps < max_gen_of (maxTokens ?req)"
    by (simp add: request_of_def max_gen_of_def)
  have f: "filter (\<lambda>p. p \<noteq> []) ?ps = [ascii ''Hi '', ascii ''there'', ascii ''!'']"
    by (simp add: ascii_def)
  have cb: "has_callback ?req"
    by (simp add: request_of_def)
  show ?thesis
    using h4 f cb marker_in_one_piece [OF h1 h2 h3 h4 h5 h6 h7 h8] by simp
qed

section \<open>C5: a four-byte character split three and one\<close>

text \<open>
  C5 says that when one token carries the first three bytes of a four-byte character
  and the next its fourth byte, the callback receives nothing at the first token and
  the complete character at the second, each byte once. The first half holds. At the
  second token the three bytes are both in \<^verbatim>\<open>utf8_buffer\<close> and in
  \<^verbatim>\<open>pending_output\<close>, and the callback receives seven bytes: the three bytes of
  the first token, then the character. The returned text is the character alone.
\<close>

theorem split_character_is_duplicated:
  "sink_calls (fst (gen_step True (piece_token [0xF0, 0x9F, 0x98]) init_loop_state)) = []
   \<and> sink_calls (fst (gen_step True (piece_token [0x80])
        (fst (gen_step True (piece_token [0xF0, 0x9F, 0x98]) init_loop_state))))
       = [[0xF0, 0x9F, 0x98, 0xF0, 0x9F, 0x98, 0x80]]
   \<and> sink_received (nativeGenerate loaded_session (request_of ''Hello'' 0 True)
        (scripted_env [[0xF0, 0x9F, 0x98], [0x80]]))
       = [[0xF0, 0x9F, 0x98, 0xF0, 0x9F, 0x98, 0x80]]
   \<and> returned (nativeGenerate loaded_session (request_of ''Hello'' 0 True)
        (scripted_env [[0xF0, 0x9F, 0x98], [0x80]])) = Inr [0xF0, 0x9F, 0x98, 0x80]"
proof -
  have a: "sink_calls (fst (gen_step True (piece_token [0xF0, 0x9F, 0x98]) init_loop_state)) = []"
    by code_simp
  have b: "sink_calls (fst (gen_step True (piece_token [0x80])
        (fst (gen_step True (piece_token [0xF0, 0x9F, 0x98]) init_loop_state))))
       = [[0xF0, 0x9F, 0x98, 0xF0, 0x9F, 0x98, 0x80]]"
    by code_simp
  have c: "sink_received (nativeGenerate loaded_session (request_of ''Hello'' 0 True)
        (scripted_env [[0xF0, 0x9F, 0x98], [0x80]]))
       = [[0xF0, 0x9F, 0x98, 0xF0, 0x9F, 0x98, 0x80]]"
    by code_simp
  have d: "returned (nativeGenerate loaded_session (request_of ''Hello'' 0 True)
        (scripted_env [[0xF0, 0x9F, 0x98], [0x80]])) = Inr [0xF0, 0x9F, 0x98, 0x80]"
    by code_simp
  show ?thesis using a b c d by simp
qed

section \<open>C6: an end-of-sequence token first\<close>

text \<open>
  C6. When a model is loaded, the prompt is tokenized and its evaluation succeeds, and
  the first token sampled is an end-of-sequence token, \<^verbatim>\<open>nativeGenerate\<close> returns
  the empty string through its normal return, not one of the error texts, and the
  callback is never called. This holds for every \<^verbatim>\<open>maxTokens\<close> (0 included, which
  means 512), every prompt (the empty one included), with or without a callback, and
  also when the stop flag is already set at the first loop test.
\<close>

theorem eog_first_returns_empty:
  assumes "nativeIsModelLoaded s" and "0 \<le> tokenize env (prompt req)"
    and "prompt_decode_ok env" and "is_eog (sampled_token env 0)"
  shows "returned (nativeGenerate s req env) = Inr [] \<and> sink_received (nativeGenerate s req env) = []"
proof -
  let ?mg = "max_gen_of (maxTokens req)"
  let ?st = "gen_loop (has_callback req) env ?mg 0 init_loop_state"
  have "?st = init_loop_state \<or> ?st = init_loop_state\<lparr>sampled := Suc (sampled init_loop_state)\<rparr>"
  proof (cases "stop_flag_at env 0")
    case True
    then show ?thesis by (simp add: gen_loop_exit)
  next
    case False
    then show ?thesis
      using gen_loop_step [OF max_gen_of_pos False gen_step_eog [OF assms(4)]] by simp
  qed
  then have st: "result ?st = [] \<and> pending_output ?st = [] \<and> sink_calls ?st = []"
    by (auto simp: init_loop_state_def)
  then have fl: "flush_pending (has_callback req) (flush_jstring_ok env) ?st = ?st"
    by (simp add: flush_pending_def)
  show ?thesis
    using assms(1-3) st fl
    by (simp add: nativeGenerate_def nativeIsModelLoaded_def Let_def final_cleanup_Nil
        makeValidUtf8_Nil c_str_def)
qed

theorem eog_first_returns_empty_witness:
  "nativeIsModelLoaded loaded_session
   \<and> 0 \<le> tokenize (scripted_env []) (prompt (request_of [] 0 True))
   \<and> prompt_decode_ok (scripted_env [])
   \<and> is_eog (sampled_token (scripted_env []) 0)
   \<and> returned (nativeGenerate loaded_session (request_of [] 0 True) (scripted_env [])) = Inr []
   \<and> sink_received (nativeGenerate loaded_session (request_of [] 0 True) (scripted_env [])) = []"
proof -
  have h1: "nativeIsModelLoaded loaded_session"
    by (simp add: nativeIsModelLoaded_def loaded_session_def)
  have h2: "0 \<le> tokenize (scripted_env []) (prompt (request_of [] 0 True))"
    by (simp add: scripted_env_def)
  have h3: "prompt_decode_ok (scripted_env [])"
    by (simp add: scripted_env_def)
  have h4: "is_eog (sampled_token (scripted_env []) 0)"
    by (simp add: scripted_env_def eog_token_def)
  show ?thesis
    using h1 h2 h3 h4 eog_first_returns_empty [OF h1 h2 h3 h4] by simp
qed

section \<open>C7: no model loaded\<close>

text \<open>
  C7. When \<^verbatim>\<open>g_model\<close> or \<^verbatim>\<open>g_ctx\<close> is null, \<^verbatim>\<open>nativeGenerate\<close> takes its
  first return: the result is the error \<open>NoModelError\<close>, which the caller receives as
  the non-empty text \<^verbatim>\<open>[Error: No model loaded]\<close>; no token is sampled, the
  callback is not called and the session is unchanged. When both handles are present,
  that return is not taken.
\<close>

theorem no_model_error:
  "(\<not> nativeIsModelLoaded s \<longrightarrow>
      returned (nativeGenerate s req env) = Inl NoModelError
      \<and> jstring_of (returned (nativeGenerate s req env)) = ascii ''[Error: No model loaded]''
      \<and> jstring_of (returned (nativeGenerate s req env)) \<noteq> []
      \<and> tokens_sampled (nativeGenerate s req env) = 0
      \<and> sink_received (nativeGenerate s req env) = []
      \<and> session_after (nativeGenerate s req env) = s)
   \<and> (nativeIsModelLoaded s \<longrightarrow> returned (nativeGenerate s req env) \<noteq> Inl NoModelError)"
  by (auto simp: nativeGenerate_def nativeIsModelLoaded_def Let_def jstring_of_def ascii_def)

theorem no_model_error_witness:
  "\<not> nativeIsModelLoaded empty_session
   \<and> returned (nativeGenerate empty_session (request_of ''Hello'' 16 True) (scripted_env [ascii ''Hi''])) = Inl NoModelError
   \<and> tokens_sampled (nativeGenerate empty_session (request_of ''Hello'' 16 True) (scripted_env [ascii ''Hi''])) = 0
   \<and> sink_received (nativeGenerate empty_session (request_of ''Hello'' 16 True) (scripted_env [ascii ''Hi''])) = []
   \<and> session_after (nativeGenerate empty_session (request_of ''Hello'' 16 True) (scripted_env [ascii ''Hi''])) = empty_session
   \<and> nativeIsModelLoaded loaded_session
   \<and> returned (nativeGenerate loaded_session (request_of ''Hello'' 16 True) (scripted_env [ascii ''Hi''])) \<noteq> Inl NoModelError"
proof -
  have h1: "\<not> nativeIsModelLoaded empty_session"
    by (simp add: nativeIsModelLoaded_def empty_session_def)
  have h2: "nativeIsModelLoaded loaded_session"
    by (simp add: nativeIsModelLoaded_def loaded_session_def)
  show ?thesis
    using h1 h2
      no_model_error [of empty_session "request_of ''Hello'' 16 True" "scripted_env [ascii ''Hi'']"]
      no_model_error [of loaded_session "request_of ''Hello'' 16 True" "scripted_env [ascii ''Hi'']"]
    by simp
qed

section \<open>C8: context creation fails after the model is loaded\<close>

text \<open>
  C8. When \<^verbatim>\<open>llama_model_load_from_file\<close> returns a model \<open>m\<close> and
  \<^verbatim>\<open>llama_init_from_model\<close> then returns null, \<^verbatim>\<open>nativeLoadModel\<close> takes the
  return of the failed context creation (\<open>ContextError\<close>, \<^verbatim>\<open>JNI_FALSE\<close> for the
  caller), the last object freed is the model \<open>m\<close> just loaded, both handles are
  null afterwards and \<^verbatim>\<open>nativeIsModelLoaded\<close> is false, whatever the session held
  before the call.
\<close>

theorem context_failure_rolls_back:
  assumes "model_load_from_file env (if useGpu then 99 else 0) = Some m"
    and "init_from_model env m (if nCtx > 0 then nCtx else 2048)
           (if nThreads > 0 then nThreads else max 1 (hardware_concurrency env - 1)) = None"
  shows "load_result (nativeLoadModel s nCtx nThreads useGpu env) = Inl ContextError
    \<and> \<not> jboolean_of (load_result (nativeLoadModel s nCtx nThreads useGpu env))
    \<and> last (load_freed (nativeLoadModel s nCtx nThreads useGpu env)) = Model m
    \<and> g_model (load_session (nativeLoadModel s nCtx nThreads useGpu env)) = None
    \<and> g_ctx (load_session (nativeLoadModel s nCtx nThreads useGpu env)) = None
    \<and> \<not> nativeIsModelLoaded (load_session (nativeLoadModel s nCtx nThreads useGpu env))"
  using assms
  by (simp add: nativeLoadModel_def Let_def jboolean_of_def nativeIsModelLoaded_def)

theorem context_failure_rolls_back_witness:
  "model_load_from_file failing_context_env (if True then 99 else 0) = Some 7
   \<and> init_from_model failing_context_env 7 (if (0::int) > 0 then 0 else 2048)
        (if (0::int) > 0 then 0 else max 1 (hardware_concurrency failing_context_env - 1)) = None
   \<and> load_result (nativeLoadModel loaded_session 0 0 True failing_context_env) = Inl ContextError
   \<and> last (load_freed (nativeLoadModel loaded_session 0 0 True failing_context_env)) = Model 7
   \<and> \<not> nativeIsModelLoaded (load_session (nativeLoadModel loaded_session 0 0 True failing_context_env))"
proof -
  have h1: "model_load_from_file failing_context_env (if True then 99 else 0) = Some 7"
    by (simp add: failing_context_env_def)
  have h2: "init_from_model failing_context_env 7 (if (0::int) > 0 then 0 else 2048)
        (if (0::int) > 0 then 0 else max 1 (hardware_concurrency failing_context_env - 1)) = None"
    by (simp add: failing_context_env_def)
  show ?thesis
    using h1 h2 context_failure_rolls_back [of failing_context_env True 7 0 0 loaded_session, OF h1 h2]
    by simp
qed

section \<open>C9: cooperative cancellation\<close>



section \<open>C10: the bound on the sampling loop\<close>

text \<open>
  C10. The sampling loop of \<^verbatim>\<open>nativeGenerate\<close> runs at most \<^verbatim>\<open>maxTokens\<close>
  iterations when \<^verbatim>\<open>maxTokens\<close> is positive, and at most 512 when it is zero or
  negative. Each iteration calls the sampler once, so the iterations are counted by
  \<open>tokens_sampled\<close>.
\<close>

theorem sampling_iterations_bounded:
  "tokens_sampled (nativeGenerate s req env)
     \<le> (if 0 <s maxTokens req then nat (sint (maxTokens req)) else 512)"
proof -
  have "sampled (gen_loop (has_callback req) env (max_gen_of (maxTokens req)) 0 init_loop_state)
          \<le> max_gen_of (maxTokens req)"
    using gen_loop_sampled_le [of "has_callback req" env "max_gen_of (maxTokens req)" 0 init_loop_state]
    by (simp add: init_loop_state_def)
  then show ?thesis
    by (auto simp: nativeGenerate_def Let_def flush_pending_sampled max_gen_of_def)
qed

theorem sampling_iterations_bounded_witness:
  "tokens_sampled (nativeGenerate loaded_session (request_of ''Hello'' (-5) True)
      (scripted_env (replicate 600 (ascii ''a'')))) \<le> 512
   \<and> tokens_sampled (nativeGenerate loaded_session (request_of ''Hello'' 3 True)
      (scripted_env (replicate 600 (ascii ''a'')))) \<le> 3"
proof -
  have neg: "\<not> 0 <s maxTokens (request_of ''Hello'' (-5) True)"
    by (simp add: request_of_def word_sless_alt)
  have pos: "0 <s maxTokens (request_of ''Hello'' 3 True)"
    by (simp add: request_of_def word_sless_alt)
  have three: "nat (sint (maxTokens (request_of ''Hello'' 3 True))) = 3"
    by (simp add: request_of_def)
  show ?thesis
    using neg pos three
      sampling_iterations_bounded [of loaded_session "request_of ''Hello'' (-5) True"
        "scripted_env (replicate 600 (ascii ''a''))"]
      sampling_iterations_bounded [of loaded_session "request_of ''Hello'' 3 True"
        "scripted_env (replicate 600 (ascii ''a''))"]
    by simp
qed

end
